theory Spec2Isabelle
  imports Complex_Main
begin

section \<open>Numbers, errors and the random source\<close>

text \<open>
  The simulator of \<^verbatim>\<open>mbs_sim.py\<close> computes with Python floats. They are
  modelled here by the real numbers. The error a float operation of the code can raise on
  range, the overflow of a power, is part of the model; rounding, infinities and NaN are
  not, and no statement below is a numerical tolerance. Python integers are
  \<^typ>\<open>int\<close>.
\<close>

text \<open>
  The literal \<^verbatim>\<open>1e-9\<close> that the source writes at each near-zero comparison: the
  double nearest to \<open>1 / 10 ^ 9\<close>, which is a little above it.
\<close>

definition EPS :: real where
  "EPS = 4835703278458517 / 2 ^ 82"

datatype py_error = ZeroDivisionError | OverflowError | TypeError | KeyError

text \<open>
  \<^verbatim>\<open>random.random()\<close> reads the process-wide generator and advances it. The generator
  is the sequence of the draws still to come; a draw returns the first one and the rest.
\<close>

type_synonym rng = "nat \<Rightarrow> real"

definition random :: "rng \<Rightarrow> real \<times> rng" where
  "random g = (g 0, (\<lambda>n. g (Suc n)))"

text \<open>
  A value is beyond the doubles when it would round to infinity: from half a unit in the
  last place above the largest double, \<open>2 ^ 1024 - 2 ^ 971\<close>, onwards.
\<close>

definition float_overflows :: "real \<Rightarrow> bool" where
  "float_overflows y = (2 ^ 1024 - 2 ^ 970 \<le> \<bar>y\<bar>)"

text \<open>
  \<^verbatim>\<open>x ** n\<close> for a float \<open>x\<close> and an integer \<open>n\<close>: zero to a negative power raises
  ZeroDivisionError, a power beyond the doubles raises OverflowError, everything else is
  the integer power.
\<close>

definition float_pow_int :: "real \<Rightarrow> int \<Rightarrow> py_error + real" where
  "float_pow_int x n =
     (if x = 0 \<and> n < 0 then Inl ZeroDivisionError
      else if float_overflows (x powi n) then Inl OverflowError
      else Inr (x powi n))"

text \<open>
  \<^verbatim>\<open>1 - (1 - a) ** (1 / 12)\<close>, the monthly equivalent of an annual rate \<open>a\<close>. Python
  gives a complex number for a negative base under a fractional exponent; that is
  \<open>None\<close> here, and the first comparison that meets it raises TypeError.
\<close>

definition monthly_equiv :: "real \<Rightarrow> real option" where
  "monthly_equiv a = (if 1 - a < 0 then None else Some (1 - (1 - a) powr (1 / 12)))"

section \<open>Collateral\<close>

record Mortgage =
  balance :: real
  rate :: real
  term_months :: int
  remaining :: int
  payment :: real
  alive :: bool

text \<open>The dictionary with the keys "interest", "principal" and "loss" that a step returns.\<close>

record cashflow =
  cf_interest :: real
  cf_principal :: real
  cf_loss :: real

text \<open>\<^verbatim>\<open>Mortgage.create\<close>: the level payment of the annuity formula.\<close>

definition create :: "real \<Rightarrow> real \<Rightarrow> int \<Rightarrow> py_error + Mortgage" where
  "create principal0 rate0 term0 =
     (let monthly_rate = rate0 / 12 in
      case float_pow_int (1 + monthly_rate) (- term0) of
        Inl e \<Rightarrow> Inl e
      | Inr p \<Rightarrow>
          if 1 - p = 0 then Inl ZeroDivisionError
          else Inr \<lparr>balance = principal0, rate = rate0, term_months = term0,
                    remaining = term0,
                    payment = principal0 * monthly_rate / (1 - p), alive = True\<rparr>)"

text \<open>
  \<^verbatim>\<open>Mortgage.step\<close>: one month. The loan is mutated in place in the source; here the
  updated loan is returned with the cashflow and the generator. No draw is made for a
  loan that is already inert.
\<close>

definition step ::
  "real \<Rightarrow> real \<Rightarrow> real \<Rightarrow> Mortgage \<Rightarrow> rng \<Rightarrow> py_error + (cashflow \<times> Mortgage \<times> rng)" where
  "step cpr cdr recovery self g =
     (if \<not> alive self \<or> balance self \<le> EPS
      then Inr (\<lparr>cf_interest = 0, cf_principal = 0, cf_loss = 0\<rparr>, self, g)
      else
        let monthly_default = monthly_equiv cdr;
            monthly_prepay = monthly_equiv cpr;
            interest = balance self * (rate self / 12);
            scheduled_principal = min (payment self - interest) (balance self);
            (u, g') = random g
        in case monthly_default of
             None \<Rightarrow> Inl TypeError
           | Some md \<Rightarrow>
               if u < md then
                 let cash_recovered = balance self * recovery;
                     credit_loss = balance self - cash_recovered
                 in Inr (\<lparr>cf_interest = 0, cf_principal = cash_recovered, cf_loss = credit_loss\<rparr>,
                         self\<lparr>balance := 0, alive := False\<rparr>, g')
               else
                 (case monthly_prepay of
                    None \<Rightarrow> Inl TypeError
                  | Some mp \<Rightarrow>
                      let prepay_amount = (balance self - scheduled_principal) * mp;
                          total_principal = min (balance self) (scheduled_principal + prepay_amount);
                          self1 = self\<lparr>balance := balance self - total_principal,
                                       remaining := remaining self - 1\<rparr>;
                          self2 = (if remaining self1 \<le> 0 \<or> balance self1 \<le> EPS
                                   then self1\<lparr>alive := False\<rparr> else self1)
                      in Inr (\<lparr>cf_interest = interest, cf_principal = total_principal, cf_loss = 0\<rparr>,
                              self2, g')))"

text \<open>The guard of the first line of \<^verbatim>\<open>step\<close>, as a predicate of its own.\<close>

definition inert :: "Mortgage \<Rightarrow> bool" where
  "inert m = (\<not> alive m \<or> balance m \<le> EPS)"

section \<open>Tranches and the waterfall\<close>

record Tranche =
  name :: string
  balance :: real
  coupon :: real

definition copy :: "Tranche \<Rightarrow> Tranche" where
  "copy self = \<lparr>name = name self, balance = balance self, coupon = coupon self\<rparr>"

text \<open>
  \<^verbatim>\<open>allocate_losses\<close> walks \<^verbatim>\<open>reversed(tranches)\<close> and leaves the loop once the loss
  still to place is at most \<^verbatim>\<open>1e-9\<close>. The loop is written over the reversed list; the
  tranches of a list are distinct objects, as the copies made by \<^verbatim>\<open>price_single_path\<close>
  are.
\<close>

fun allocate_losses_loop :: "real \<Rightarrow> Tranche list \<Rightarrow> Tranche list" where
  "allocate_losses_loop loss [] = []"
| "allocate_losses_loop loss (tr # rest) =
     (let hit = min (balance tr) loss;
          tr' = tr\<lparr>balance := balance tr - hit\<rparr>;
          loss' = loss - hit
      in if loss' \<le> EPS then tr' # rest else tr' # allocate_losses_loop loss' rest)"

definition allocate_losses :: "real \<Rightarrow> Tranche list \<Rightarrow> Tranche list" where
  "allocate_losses loss tranches = rev (allocate_losses_loop loss (rev tranches))"

text \<open>
  The interest loop of \<^verbatim>\<open>price_single_path\<close>: the payments in tranche order and the
  interest cash left. It reads the tranches and writes none of them.
\<close>

fun pay_interest :: "real \<Rightarrow> Tranche list \<Rightarrow> real list \<times> real" where
  "pay_interest interest_available [] = ([], interest_available)"
| "pay_interest interest_available (tr # rest) =
     (let due = balance tr * coupon tr / 12;
          paid = min due interest_available;
          (interest_paid, left) = pay_interest (interest_available - paid) rest
      in (paid # interest_paid, left))"

text \<open>The principal loop: the tranches after it, the payments in tranche order, the cash left.\<close>

fun pay_principal :: "real \<Rightarrow> Tranche list \<Rightarrow> Tranche list \<times> real list \<times> real" where
  "pay_principal principal_available [] = ([], [], principal_available)"
| "pay_principal principal_available (tr # rest) =
     (let pay = min (balance tr) principal_available;
          tr' = tr\<lparr>balance := balance tr - pay\<rparr>;
          (rest', principal_paid, left) = pay_principal (principal_available - pay) rest
      in (tr' # rest', pay # principal_paid, left))"

text \<open>
  One month of the waterfall, from the pool's totals: losses, then interest, then principal
  out of the principal cash and the interest cash left over. The result keeps what each
  stage produced: the tranches after the losses, the interest payments, the interest cash
  left, the pool of principal, the tranches after the month and the principal payments.
\<close>

record waterfall_result =
  after_losses :: "Tranche list"
  interest_paid :: "real list"
  interest_left :: real
  principal_pool :: real
  after_month :: "Tranche list"
  principal_paid :: "real list"

definition waterfall :: "real \<Rightarrow> real \<Rightarrow> real \<Rightarrow> Tranche list \<Rightarrow> waterfall_result" where
  "waterfall cash_int cash_prin losses trs =
     (let trs1 = allocate_losses losses trs;
          (ips, interest_available) = pay_interest cash_int trs1;
          principal_available = cash_prin + interest_available;
          (trs2, pps, left) = pay_principal principal_available trs1
      in \<lparr>after_losses = trs1, interest_paid = ips, interest_left = interest_available,
          principal_pool = principal_available, after_month = trs2, principal_paid = pps\<rparr>)"

section \<open>One path\<close>

text \<open>Stepping every loan of the pool once, summing interest, principal and loss.\<close>

fun step_pool ::
  "real \<Rightarrow> real \<Rightarrow> real \<Rightarrow> real \<times> real \<times> real \<Rightarrow> Mortgage list \<Rightarrow> rng \<Rightarrow>
     py_error + ((real \<times> real \<times> real) \<times> Mortgage list \<times> rng)" where
  "step_pool cpr cdr recovery (cash_int, cash_prin, losses) [] g =
     Inr ((cash_int, cash_prin, losses), [], g)"
| "step_pool cpr cdr recovery (cash_int, cash_prin, losses) (mt # rest) g =
     (case step cpr cdr recovery mt g of
        Inl e \<Rightarrow> Inl e
      | Inr (cf, mt', g') \<Rightarrow>
          (case step_pool cpr cdr recovery
                  (cash_int + cf_interest cf, cash_prin + cf_principal cf, losses + cf_loss cf)
                  rest g' of
             Inl e \<Rightarrow> Inl e
           | Inr (totals, rest', g'') \<Rightarrow> Inr (totals, mt' # rest', g'')))"

text \<open>The discounting loop over \<^verbatim>\<open>zip(tranches, interest_paid, principal_paid)\<close>.\<close>

fun discount_loop ::
  "real \<Rightarrow> (Tranche \<times> real \<times> real) list \<Rightarrow> (string \<rightharpoonup> real) \<Rightarrow> py_error + (string \<rightharpoonup> real)" where
  "discount_loop discount_factor [] pv = Inr pv"
| "discount_loop discount_factor ((tr, ip, pp) # rest) pv =
     (case pv (name tr) of
        None \<Rightarrow> Inl KeyError
      | Some v \<Rightarrow>
          if discount_factor = 0 then Inl ZeroDivisionError
          else discount_loop discount_factor rest (pv(name tr \<mapsto> v + (ip + pp) / discount_factor)))"

record path_state =
  tranches :: "Tranche list"
  mortgages :: "Mortgage list"
  pv :: "string \<rightharpoonup> real"
  gen :: rng

text \<open>The body of the month loop, after the test that a loan is still alive.\<close>

definition month_body ::
  "real \<Rightarrow> real \<Rightarrow> real \<Rightarrow> real \<Rightarrow> int \<Rightarrow> path_state \<Rightarrow> py_error + path_state" where
  "month_body cpr cdr recovery monthly_disc month st =
     (case step_pool cpr cdr recovery (0, 0, 0) (mortgages st) (gen st) of
        Inl e \<Rightarrow> Inl e
      | Inr ((cash_int, cash_prin, losses), mts', g') \<Rightarrow>
          let w = waterfall cash_int cash_prin losses (tranches st) in
          (case float_pow_int (1 + monthly_disc) month of
             Inl e \<Rightarrow> Inl e
           | Inr discount_factor \<Rightarrow>
               (case discount_loop discount_factor
                       (zip (after_month w) (zip (interest_paid w) (principal_paid w))) (pv st) of
                  Inl e \<Rightarrow> Inl e
                | Inr pv' \<Rightarrow>
                    Inr \<lparr>tranches = after_month w, mortgages = mts', pv = pv', gen = g'\<rparr>)))"

text \<open>The month loop over \<^verbatim>\<open>range(1, months + 1)\<close>, with its early exit.\<close>

fun months_loop ::
  "real \<Rightarrow> real \<Rightarrow> real \<Rightarrow> real \<Rightarrow> int list \<Rightarrow> path_state \<Rightarrow> py_error + path_state" where
  "months_loop cpr cdr recovery monthly_disc [] st = Inr st"
| "months_loop cpr cdr recovery monthly_disc (month # rest) st =
     (if \<not> list_ex alive (mortgages st) then Inr st
      else case month_body cpr cdr recovery monthly_disc month st of
             Inl e \<Rightarrow> Inl e
           | Inr st' \<Rightarrow> months_loop cpr cdr recovery monthly_disc rest st')"

text \<open>
  \<^verbatim>\<open>price_single_path\<close>. The pool factory is a parameter, as in the source; it may draw
  from the generator. The result is the dictionary \<open>pv\<close>, with the generator as the
  path leaves it.
\<close>

definition price_single_path ::
  "(rng \<Rightarrow> Mortgage list \<times> rng) \<Rightarrow> Tranche list \<Rightarrow> int \<Rightarrow> real \<Rightarrow> real \<Rightarrow> real \<Rightarrow> real \<Rightarrow> rng \<Rightarrow>
     py_error + ((string \<rightharpoonup> real) \<times> rng)" where
  "price_single_path pool_factory tranche_defs months cpr cdr recovery disc_rate g =
     (let trs = map copy tranche_defs;
          (mts, g') = pool_factory g;
          pv0 = map_of (map (\<lambda>t. (name t, 0)) trs);
          monthly_disc = disc_rate / 12
      in case months_loop cpr cdr recovery monthly_disc [1..months]
                \<lparr>tranches = trs, mortgages = mts, pv = pv0, gen = g'\<rparr> of
           Inl e \<Rightarrow> Inl e
         | Inr st \<Rightarrow> Inr (pv st, gen st))"

section \<open>The inputs the simulator is meant for\<close>

text \<open>
  The data model of the specification: a loan has a non-negative balance and rate and a
  payment that covers the month's interest (as the annuity payment does); a tranche has a
  non-negative balance and coupon; CPR, CDR and the recovery fraction lie between 0 and 1.
  The code checks none of this.
\<close>

definition loan_ok :: "Mortgage \<Rightarrow> bool" where
  "loan_ok m =
     (0 \<le> Mortgage.balance m \<and> 0 \<le> rate m \<and> Mortgage.balance m * (rate m / 12) \<le> payment m)"

definition tranche_ok :: "Tranche \<Rightarrow> bool" where
  "tranche_ok t = (0 \<le> balance t \<and> 0 \<le> coupon t)"

definition rates_ok :: "real \<Rightarrow> real \<Rightarrow> real \<Rightarrow> bool" where
  "rates_ok cpr cdr recovery =
     (0 \<le> cpr \<and> cpr \<le> 1 \<and> 0 \<le> cdr \<and> cdr \<le> 1 \<and> 0 \<le> recovery \<and> recovery \<le> 1)"

text \<open>
  One tranche after an operation against the same tranche before it: the balance has not
  grown and is still non-negative, name and coupon are as they were.
\<close>

definition tranche_le :: "Tranche \<Rightarrow> Tranche \<Rightarrow> bool" where
  "tranche_le t' t =
     (balance t' \<le> balance t \<and> 0 \<le> balance t' \<and> coupon t' = coupon t \<and> name t' = name t)"

section \<open>The inert state\<close>

text \<open>
  C6. For a loan that is inert (alive flag false, or balance at or below the threshold),
  the monthly step returns the all-zero cashflow, returns the loan with every field
  unchanged and makes no draw, for all CPR, CDR and recovery inputs. The loan it returns
  is the loan it was given, hence inert again: the state is absorbing.
\<close>

theorem step_inert_absorbing:
  "inert m \<Longrightarrow>
     step cpr cdr recovery m g = Inr (\<lparr>cf_interest = 0, cf_principal = 0, cf_loss = 0\<rparr>, m, g)"
  by (simp add: step_def inert_def)

theorem step_inert_absorbing_witness:
  "inert \<lparr>Mortgage.balance = 0, rate = 3, term_months = 12, remaining = 5, payment = 7, alive = True\<rparr> \<and>
   step 2 5 (-1) \<lparr>Mortgage.balance = 0, rate = 3, term_months = 12, remaining = 5, payment = 7, alive = True\<rparr>
        (\<lambda>n. 1 / 2)
     = Inr (\<lparr>cf_interest = 0, cf_principal = 0, cf_loss = 0\<rparr>,
            \<lparr>Mortgage.balance = 0, rate = 3, term_months = 12, remaining = 5, payment = 7, alive = True\<rparr>,
            (\<lambda>n. 1 / 2))"
proof -
  have h: "inert \<lparr>Mortgage.balance = 0, rate = 3, term_months = 12, remaining = 5, payment = 7, alive = True\<rparr>"
    by (simp add: inert_def EPS_def)
  show ?thesis
    using h step_inert_absorbing [OF h, of 2 5 "-1" "\<lambda>n. 1 / 2"] by simp
qed

section \<open>A default month\<close>

text \<open>
  C5. For an alive loan with balance above the threshold, if the default trial fires (the
  draw is below the monthly default probability), the step returns interest 0, principal
  equal to balance times recovery and loss equal to balance times (1 - recovery); the
  loan it leaves has balance 0 and is not alive, and its remaining term and payment are
  untouched. The result does not depend on CPR: no prepayment and no scheduled
  amortization take place in that step.
\<close>

theorem step_default:
  assumes "alive m" and "EPS < Mortgage.balance m" and "cdr \<le> 1"
    and "fst (random g) < 1 - (1 - cdr) powr (1 / 12)"
  shows "step cpr cdr recovery m g =
           Inr (\<lparr>cf_interest = 0, cf_principal = Mortgage.balance m * recovery,
                 cf_loss = Mortgage.balance m * (1 - recovery)\<rparr>,
                m\<lparr>Mortgage.balance := 0, alive := False\<rparr>, snd (random g))"
  using assms by (simp add: step_def monthly_equiv_def Let_def split_beta algebra_simps)

theorem step_default_witness:
  "step (1 / 2) 1 (1 / 4)
        \<lparr>Mortgage.balance = 1000, rate = 12, term_months = 2, remaining = 2, payment = 1500,
           alive = True\<rparr> (\<lambda>n. 1 / 2) =
     Inr (\<lparr>cf_interest = 0, cf_principal = 250, cf_loss = 750\<rparr>,
          \<lparr>Mortgage.balance = 0, rate = 12, term_months = 2, remaining = 2, payment = 1500,
             alive = False\<rparr>, (\<lambda>n. 1 / 2))"
  using step_default [of "\<lparr>Mortgage.balance = 1000, rate = 12, term_months = 2, remaining = 2,
      payment = 1500, alive = True\<rparr>" 1 "\<lambda>n. 1 / 2" "1 / 2" "1 / 4"]
  by (simp add: EPS_def random_def)

section \<open>Creating a loan\<close>

lemma not_float_overflows_small: "\<bar>y\<bar> \<le> 2 \<Longrightarrow> \<not> float_overflows y"
proof -
  assume a: "\<bar>y\<bar> \<le> 2"
  have "(2::real) ^ 970 * 2 \<le> 2 ^ 970 * 2 ^ 54" by (intro mult_left_mono) simp_all
  then have "(2::real) ^ 971 \<le> 2 ^ 1024" by (simp add: power_add [symmetric])
  moreover have "(2::real) ^ 971 = 2 ^ 970 + 2 ^ 970" by simp
  moreover have "(2::real) < 2 ^ 970" using power_strict_increasing [of 1 970 "2::real"] by simp
  ultimately have "2 < (2::real) ^ 1024 - 2 ^ 970" by linarith
  then show ?thesis using a by (simp add: float_overflows_def)
qed

lemma create_cases:
  "create p r n =
     (if 1 + r / 12 = 0 \<and> 0 < n then Inl ZeroDivisionError
      else if float_overflows ((1 + r / 12) powi (- n)) then Inl OverflowError
      else if (1 + r / 12) powi (- n) = 1 then Inl ZeroDivisionError
      else Inr \<lparr>Mortgage.balance = p, rate = r, term_months = n, remaining = n,
                payment = p * (r / 12) / (1 - (1 + r / 12) powi (- n)), alive = True\<rparr>)"
  by (simp add: create_def float_pow_int_def Let_def)




text \<open>
  A loan created from a positive principal, rate and term has a payment that covers the
  first month's interest: the denominator of the formula lies between 0 and 1.
\<close>

lemma create_loan_ok:
  assumes "0 < p" and "0 < r" and "0 < n" and "create p r n = Inr m"
  shows "loan_ok m"
proof -
  define q where "q = 1 + r / 12"
  define k where "k = nat n"
  have q1: "1 < q" using assms(2) by (simp add: q_def)
  have k0: "0 < k" using assms(3) by (simp add: k_def)
  have qk: "1 < q ^ k" using q1 k0 by (simp add: one_less_power)
  have pw: "q powi (- n) = 1 / q ^ k"
    using assms(3) by (simp add: power_int_def k_def power_inverse inverse_eq_divide power_one_over)
  have d: "0 < 1 - q powi (- n)" "1 - q powi (- n) \<le> 1" unfolding pw using qk by simp_all
  have m: "m = \<lparr>Mortgage.balance = p, rate = r, term_months = n, remaining = n,
           payment = p * (r / 12) / (1 - q powi (- n)), alive = True\<rparr>"
    using assms(4) unfolding create_cases q_def by (auto split: if_splits)
  define x where "x = p * (r / 12)"
  define dd where "dd = 1 - q powi (- n)"
  have x0: "0 \<le> x" unfolding x_def using assms(1,2) by simp
  have dd0: "0 < dd" "dd \<le> 1" using d by (simp_all add: dd_def)
  have "x * dd \<le> x * 1" using x0 dd0(2) by (intro mult_left_mono) simp_all
  then have "x \<le> x / dd" using dd0(1) by (simp add: pos_le_divide_eq)
  then have "p * (r / 12) \<le> p * (r / 12) / (1 - q powi (- n))" by (simp add: x_def dd_def)
  then show ?thesis using assms(1,2) unfolding m loan_ok_def by simp
qed

section \<open>Loss allocation\<close>

lemma loop_length: "length (allocate_losses_loop l xs) = length xs"
  by (induction xs arbitrary: l) (auto simp: Let_def)

lemma allocate_losses_length: "length (allocate_losses l trs) = length trs"
  by (simp add: allocate_losses_def loop_length)



lemma tranche_le_refl: "0 \<le> balance t \<Longrightarrow> tranche_le t t"
  by (simp add: tranche_le_def)

lemma loop_tranche_le:
  "\<forall>t\<in>set xs. 0 \<le> balance t \<Longrightarrow> 0 \<le> l \<Longrightarrow> list_all2 tranche_le (allocate_losses_loop l xs) xs"
proof (induction xs arbitrary: l)
  case Nil then show ?case by simp
next
  case (Cons t rest)
  define hit where "hit = min (balance t) l"
  have h: "0 \<le> hit" "hit \<le> balance t" "0 \<le> l - hit" unfolding hit_def using Cons.prems by simp_all
  have t: "tranche_le (t\<lparr>balance := balance t - hit\<rparr>) t" using h by (simp add: tranche_le_def)
  have r: "list_all2 tranche_le rest rest"
    using Cons.prems(1) by (simp add: list_all2_same tranche_le_refl)
  have ih: "list_all2 tranche_le (allocate_losses_loop (l - hit) rest) rest"
    using Cons.IH [of "l - hit"] Cons.prems(1) h(3) by simp
  have eq: "allocate_losses_loop l (t # rest) =
      (if l - hit \<le> EPS then t\<lparr>balance := balance t - hit\<rparr> # rest
       else t\<lparr>balance := balance t - hit\<rparr> # allocate_losses_loop (l - hit) rest)"
    by (simp add: Let_def hit_def)
  show ?case unfolding eq using t r ih by simp
qed

lemma allocate_losses_tranche_le:
  assumes "\<forall>t\<in>set trs. 0 \<le> balance t" and "0 \<le> l"
  shows "list_all2 tranche_le (allocate_losses l trs) trs"
proof -
  have "list_all2 tranche_le (allocate_losses_loop l (rev trs)) (rev trs)"
    using assms by (intro loop_tranche_le) simp_all
  then have "list_all2 tranche_le (rev (allocate_losses_loop l (rev trs))) (rev (rev trs))"
    by (simp only: list_all2_rev)
  then show ?thesis by (simp add: allocate_losses_def)
qed









section \<open>Interest and principal\<close>

lemma pay_interest_length: "length (fst (pay_interest a trs)) = length trs"
  by (induction trs arbitrary: a) (simp_all add: Let_def split_beta)

lemma pay_interest_left: "snd (pay_interest a trs) = a - sum_list (fst (pay_interest a trs))"
  by (induction trs arbitrary: a) (simp_all add: Let_def split_beta)

lemma pay_interest_nth:
  "i < length trs \<Longrightarrow>
     fst (pay_interest a trs) ! i =
       min (balance (trs ! i) * coupon (trs ! i) / 12) (a - sum_list (take i (fst (pay_interest a trs))))"
proof (induction trs arbitrary: a i)
  case Nil then show ?case by simp
next
  case (Cons t rest)
  show ?case
  proof (cases i)
    case 0 then show ?thesis by (simp add: Let_def split_beta)
  next
    case (Suc j)
    then have "j < length rest" using Cons.prems by simp
    from Cons.IH [OF this, of "a - min (balance t * coupon t / 12) a"] Suc
    show ?thesis by (simp add: Let_def split_beta algebra_simps)
  qed
qed

lemma pay_interest_nonneg:
  "\<forall>t\<in>set trs. 0 \<le> balance t \<and> 0 \<le> coupon t \<Longrightarrow> 0 \<le> a \<Longrightarrow>
     (\<forall>x\<in>set (fst (pay_interest a trs)). 0 \<le> x) \<and> 0 \<le> snd (pay_interest a trs)"
proof (induction trs arbitrary: a)
  case Nil then show ?case by simp
next
  case (Cons t rest)
  let ?paid = "min (balance t * coupon t / 12) a"
  have d: "0 \<le> balance t * coupon t / 12" using Cons.prems(1) by simp
  have p: "0 \<le> ?paid" "0 \<le> a - ?paid" using d Cons.prems(2) by simp_all
  have "(\<forall>x\<in>set (fst (pay_interest (a - ?paid) rest)). 0 \<le> x) \<and> 0 \<le> snd (pay_interest (a - ?paid) rest)"
    using Cons.IH [of "a - ?paid"] Cons.prems(1) p(2) by simp
  then show ?case using p(1) by (simp add: Let_def split_beta)
qed

lemma pay_principal_length:
  "length (fst (pay_principal a trs)) = length trs \<and>
   length (fst (snd (pay_principal a trs))) = length trs"
  by (induction trs arbitrary: a) (simp_all add: Let_def split_beta)

lemma pay_principal_left:
  "snd (snd (pay_principal a trs)) = a - sum_list (fst (snd (pay_principal a trs)))"
  by (induction trs arbitrary: a) (simp_all add: Let_def split_beta)

lemma pay_principal_nth:
  "i < length trs \<Longrightarrow>
     fst (snd (pay_principal a trs)) ! i =
       min (balance (trs ! i)) (a - sum_list (take i (fst (snd (pay_principal a trs))))) \<and>
     fst (pay_principal a trs) ! i =
       (trs ! i)\<lparr>balance := balance (trs ! i) - fst (snd (pay_principal a trs)) ! i\<rparr>"
proof (induction trs arbitrary: a i)
  case Nil then show ?case by simp
next
  case (Cons t rest)
  show ?case
  proof (cases i)
    case 0 then show ?thesis by (simp add: Let_def split_beta)
  next
    case (Suc j)
    then have "j < length rest" using Cons.prems by simp
    from Cons.IH [OF this, of "a - min (balance t) a"] Suc
    show ?thesis by (simp add: Let_def split_beta algebra_simps)
  qed
qed

lemma pay_principal_nonneg:
  "\<forall>t\<in>set trs. 0 \<le> balance t \<Longrightarrow> 0 \<le> a \<Longrightarrow>
     (\<forall>x\<in>set (fst (snd (pay_principal a trs))). 0 \<le> x) \<and>
     (\<forall>t\<in>set (fst (pay_principal a trs)). 0 \<le> balance t) \<and>
     0 \<le> snd (snd (pay_principal a trs))"
proof (induction trs arbitrary: a)
  case Nil then show ?case by simp
next
  case (Cons t rest)
  let ?pay = "min (balance t) a"
  have p: "0 \<le> ?pay" "0 \<le> a - ?pay" "0 \<le> balance t - ?pay" using Cons.prems by simp_all
  have "(\<forall>x\<in>set (fst (snd (pay_principal (a - ?pay) rest))). 0 \<le> x) \<and>
     (\<forall>t\<in>set (fst (pay_principal (a - ?pay) rest)). 0 \<le> balance t) \<and>
     0 \<le> snd (snd (pay_principal (a - ?pay) rest))"
    using Cons.IH [of "a - ?pay"] Cons.prems(1) p(2) by simp
  then show ?case using p by (simp add: Let_def split_beta)
qed

text \<open>
  C3. After the principal loop, run on any pool of cash and any tranches, a tranche at a
  position \<open>i > 0\<close> has received a nonzero payment only if the tranche at position
  \<open>i - 1\<close> ended with balance exactly 0 or the pool was exhausted before tranche \<open>i\<close>
  was reached: what the tranches before it were paid had used the pool up.
\<close>

theorem pay_principal_sequential:
  assumes "pay_principal principal_available trs = (trs', paid, left)"
    and "0 < i" and "i < length trs" and "paid ! i \<noteq> 0"
  shows "balance (trs' ! (i - 1)) = 0 \<or> principal_available - sum_list (take i paid) = 0"
proof -
  obtain j where j: "i = Suc j" using assms(2) by (cases i) simp_all
  have jl: "j < length trs" using assms(3) j by simp
  have t: "trs' = fst (pay_principal principal_available trs)"
    and p: "paid = fst (snd (pay_principal principal_available trs))"
    using assms(1) by simp_all
  have lp: "length paid = length trs" using pay_principal_length [of principal_available trs] p by simp
  have n1: "paid ! j = min (balance (trs ! j)) (principal_available - sum_list (take j paid))"
    and n2: "trs' ! j = (trs ! j)\<lparr>balance := balance (trs ! j) - paid ! j\<rparr>"
    using pay_principal_nth [OF jl, of principal_available] t p by simp_all
  have tk: "sum_list (take (Suc j) paid) = sum_list (take j paid) + paid ! j"
    using jl lp by (simp add: take_Suc_conv_app_nth)
  have b: "balance (trs' ! j) = balance (trs ! j) - paid ! j" unfolding n2 by simp
  have "paid ! j = balance (trs ! j) \<or> paid ! j = principal_available - sum_list (take j paid)"
    unfolding n1 by (simp add: min_def)
  then show ?thesis using b tk j by auto
qed

theorem pay_principal_sequential_witness:
  "pay_principal 12 [\<lparr>name = ''Senior'', balance = 10, coupon = 0\<rparr>,
                     \<lparr>name = ''Equity'', balance = 5, coupon = 0\<rparr>] =
     ([\<lparr>name = ''Senior'', balance = 0, coupon = 0\<rparr>, \<lparr>name = ''Equity'', balance = 3, coupon = 0\<rparr>],
      [10, 2], 0) \<and>
   [10, 2 :: real] ! 1 \<noteq> 0 \<and>
   (balance ([\<lparr>name = ''Senior'', balance = 0, coupon = 0\<rparr>,
              \<lparr>name = ''Equity'', balance = 3, coupon = 0\<rparr>] ! (1 - 1)) = 0 \<or>
    12 - sum_list (take 1 [10, 2 :: real]) = 0)"
proof -
  have e: "pay_principal 12 [\<lparr>name = ''Senior'', balance = 10, coupon = 0\<rparr>,
                     \<lparr>name = ''Equity'', balance = 5, coupon = 0\<rparr>] =
     ([\<lparr>name = ''Senior'', balance = 0, coupon = 0\<rparr>, \<lparr>name = ''Equity'', balance = 3, coupon = 0\<rparr>],
      [10, 2], 0)"
    by (simp add: Let_def)
  have n: "[10, 2 :: real] ! 1 \<noteq> 0" by simp
  from pay_principal_sequential [OF e _ _ n] e n show ?thesis by simp
qed

text \<open>
  C7. In a month's waterfall the interest payments are made in tranche order from the
  interest cash: tranche \<open>i\<close> receives its due, balance times coupon over 12 at the
  balance the losses left, capped at the interest cash that the tranches before it have
  not taken. The interest cash left is the cash less the payments, whatever was due. The
  pool of principal is the principal cash plus exactly that remainder. The tranches the
  month leaves are what the principal loop makes of the tranches the losses left: the
  interest step writes no tranche, and no shortfall is recorded anywhere.
\<close>

theorem waterfall_interest:
  assumes "w = waterfall cash_int cash_prin losses trs"
  shows "length (interest_paid w) = length trs \<and>
         (\<forall>i<length trs.
            interest_paid w ! i =
              min (balance (after_losses w ! i) * coupon (after_losses w ! i) / 12)
                  (cash_int - sum_list (take i (interest_paid w)))) \<and>
         interest_left w = cash_int - sum_list (interest_paid w) \<and>
         principal_pool w = cash_prin + interest_left w \<and>
         after_month w = fst (pay_principal (principal_pool w) (after_losses w))"
proof -
  let ?trs1 = "allocate_losses losses trs"
  have a: "after_losses w = ?trs1" and b: "interest_paid w = fst (pay_interest cash_int ?trs1)"
    and c: "interest_left w = snd (pay_interest cash_int ?trs1)"
    and d: "principal_pool w = cash_prin + snd (pay_interest cash_int ?trs1)"
    and e: "after_month w = fst (pay_principal (cash_prin + snd (pay_interest cash_int ?trs1)) ?trs1)"
    unfolding assms waterfall_def by (simp_all add: Let_def split_beta)
  have l: "length ?trs1 = length trs" by (simp add: allocate_losses_def loop_length)
  have n: "\<forall>i<length trs. interest_paid w ! i =
              min (balance (after_losses w ! i) * coupon (after_losses w ! i) / 12)
                  (cash_int - sum_list (take i (interest_paid w)))"
    unfolding a b using pay_interest_nth [of _ ?trs1 cash_int] l by simp
  show ?thesis
    using n l unfolding a b c d e
    by (simp add: pay_interest_length pay_interest_left)
qed

theorem waterfall_interest_witness:
  "waterfall 15 100 0 [\<lparr>name = ''Senior'', balance = 1200, coupon = 1 / 10\<rparr>,
                       \<lparr>name = ''Equity'', balance = 600, coupon = 2 / 10\<rparr>] =
     \<lparr>after_losses = [\<lparr>name = ''Senior'', balance = 1200, coupon = 1 / 10\<rparr>,
                      \<lparr>name = ''Equity'', balance = 600, coupon = 2 / 10\<rparr>],
      interest_paid = [10, 5], interest_left = 0, principal_pool = 100,
      after_month = [\<lparr>name = ''Senior'', balance = 1100, coupon = 1 / 10\<rparr>,
                     \<lparr>name = ''Equity'', balance = 600, coupon = 2 / 10\<rparr>],
      principal_paid = [100, 0]\<rparr> \<and>
   [10, 5 :: real] ! 1 = min (600 * (2 / 10) / 12) (15 - sum_list (take 1 [10, 5]))"
proof -
  have e: "waterfall 15 100 0 [\<lparr>name = ''Senior'', balance = 1200, coupon = 1 / 10\<rparr>,
                       \<lparr>name = ''Equity'', balance = 600, coupon = 2 / 10\<rparr>] =
     \<lparr>after_losses = [\<lparr>name = ''Senior'', balance = 1200, coupon = 1 / 10\<rparr>,
                      \<lparr>name = ''Equity'', balance = 600, coupon = 2 / 10\<rparr>],
      interest_paid = [10, 5], interest_left = 0, principal_pool = 100,
      after_month = [\<lparr>name = ''Senior'', balance = 1100, coupon = 1 / 10\<rparr>,
                     \<lparr>name = ''Equity'', balance = 600, coupon = 2 / 10\<rparr>],
      principal_paid = [100, 0]\<rparr>"
    by (simp add: waterfall_def allocate_losses_def Let_def EPS_def)
  from waterfall_interest [OF e [symmetric]] e show ?thesis by simp
qed

section \<open>A month of the path\<close>

text \<open>
  On the inputs the simulator is meant for, a step raises nothing, returns non-negative
  interest, principal and loss, and leaves a loan that is again well formed.
\<close>

lemma monthly_equiv_unit:
  "0 \<le> a \<Longrightarrow> a \<le> 1 \<Longrightarrow> \<exists>q. monthly_equiv a = Some q \<and> 0 \<le> q \<and> q \<le> 1"
proof -
  assume a: "0 \<le> a" "a \<le> 1"
  have "(1 - a) powr (1 / 12) \<le> 1" using a by (intro powr_le1) simp_all
  moreover have "0 \<le> (1 - a) powr (1 / 12)" by simp
  ultimately show ?thesis using a by (simp add: monthly_equiv_def)
qed

lemma step_ok:
  assumes r: "rates_ok cpr cdr recovery" and m: "loan_ok m"
  shows "\<exists>cf m' g'. step cpr cdr recovery m g = Inr (cf, m', g') \<and>
           0 \<le> cf_interest cf \<and> 0 \<le> cf_principal cf \<and> 0 \<le> cf_loss cf \<and> loan_ok m'"
proof (cases "\<not> alive m \<or> Mortgage.balance m \<le> EPS")
  case True
  then show ?thesis using m by (simp add: step_def)
next
  case False
  obtain md where md: "monthly_equiv cdr = Some md"
    using monthly_equiv_unit [of cdr] r by (auto simp: rates_ok_def)
  obtain mp where mp: "monthly_equiv cpr = Some mp" "0 \<le> mp" "mp \<le> 1"
    using monthly_equiv_unit [of cpr] r by (auto simp: rates_ok_def)
  define b where "b = Mortgage.balance m"
  define i where "i = b * (rate m / 12)"
  define sp where "sp = min (payment m - i) b"
  define tp where "tp = min b (sp + (b - sp) * mp)"
  have b0: "0 \<le> b" and r0: "0 \<le> rate m" and pi: "i \<le> payment m"
    using m by (simp_all add: loan_ok_def b_def i_def)
  have i0: "0 \<le> i" unfolding i_def using b0 r0 by simp
  have sp0: "0 \<le> sp" "sp \<le> b" unfolding sp_def using pi b0 by simp_all
  have "0 \<le> (b - sp) * mp" using sp0 mp by simp
  then have tp0: "0 \<le> tp" "tp \<le> b" unfolding tp_def using sp0 b0 by simp_all
  show ?thesis
  proof (cases "fst (random g) < md")
    case True
    have rec: "0 \<le> b * recovery" "0 \<le> b - b * recovery"
    proof -
      have "0 \<le> recovery" "recovery \<le> 1" using r by (simp_all add: rates_ok_def)
      then show "0 \<le> b * recovery" using b0 by simp
      have "b * recovery \<le> b * 1" using \<open>recovery \<le> 1\<close> b0 by (intro mult_left_mono) simp_all
      then show "0 \<le> b - b * recovery" by simp
    qed
    have "step cpr cdr recovery m g =
        Inr (\<lparr>cf_interest = 0, cf_principal = b * recovery, cf_loss = b - b * recovery\<rparr>,
             m\<lparr>Mortgage.balance := 0, alive := False\<rparr>, snd (random g))"
      using False True md by (simp add: step_def Let_def split_beta b_def)
    moreover have "loan_ok (m\<lparr>Mortgage.balance := 0, alive := False\<rparr>)"
      using r0 pi i0 by (simp add: loan_ok_def)
    ultimately show ?thesis using rec by simp
  next
    case nd: False
    define m1 where "m1 = m\<lparr>Mortgage.balance := b - tp, remaining := remaining m - 1\<rparr>"
    define m2 where "m2 = (if remaining m1 \<le> 0 \<or> Mortgage.balance m1 \<le> EPS then m1\<lparr>alive := False\<rparr> else m1)"
    have st: "step cpr cdr recovery m g =
        Inr (\<lparr>cf_interest = i, cf_principal = tp, cf_loss = 0\<rparr>, m2, snd (random g))"
      using False nd md mp(1)
      by (simp add: step_def Let_def split_beta b_def i_def sp_def tp_def m1_def m2_def)
    have "(b - tp) * (rate m / 12) \<le> b * (rate m / 12)"
      using tp0 r0 by (intro mult_right_mono) simp_all
    then have "loan_ok m1"
      using tp0 r0 pi unfolding m1_def loan_ok_def i_def by simp
    then have "loan_ok m2" unfolding m2_def by (simp add: loan_ok_def)
    then show ?thesis using st i0 tp0 by simp
  qed
qed

lemma step_pool_ok:
  assumes r: "rates_ok cpr cdr recovery"
  shows "\<forall>m\<in>set mts. loan_ok m \<Longrightarrow> 0 \<le> ci \<Longrightarrow> 0 \<le> cp \<Longrightarrow> 0 \<le> l \<Longrightarrow>
     \<exists>ci' cp' l' mts' g'. step_pool cpr cdr recovery (ci, cp, l) mts g = Inr ((ci', cp', l'), mts', g') \<and>
        0 \<le> ci' \<and> 0 \<le> cp' \<and> 0 \<le> l' \<and> (\<forall>m\<in>set mts'. loan_ok m) \<and> length mts' = length mts"
proof (induction mts arbitrary: ci cp l g)
  case Nil then show ?case by simp
next
  case (Cons mt rest)
  have "loan_ok mt" using Cons.prems(1) by simp
  from step_ok [OF r this, of g] obtain cf mt' g' where
    s: "step cpr cdr recovery mt g = Inr (cf, mt', g')"
    and c: "0 \<le> cf_interest cf" "0 \<le> cf_principal cf" "0 \<le> cf_loss cf" and o: "loan_ok mt'"
    by blast
  have "\<exists>ci' cp' l' mts' g''. step_pool cpr cdr recovery
       (ci + cf_interest cf, cp + cf_principal cf, l + cf_loss cf) rest g' = Inr ((ci', cp', l'), mts', g'') \<and>
        0 \<le> ci' \<and> 0 \<le> cp' \<and> 0 \<le> l' \<and> (\<forall>m\<in>set mts'. loan_ok m) \<and> length mts' = length rest"
    using Cons.prems c by (intro Cons.IH) simp_all
  then obtain ci' cp' l' mts' g'' where
    p: "step_pool cpr cdr recovery
       (ci + cf_interest cf, cp + cf_principal cf, l + cf_loss cf) rest g' = Inr ((ci', cp', l'), mts', g'')"
    and q: "0 \<le> ci'" "0 \<le> cp'" "0 \<le> l'" "\<forall>m\<in>set mts'. loan_ok m" "length mts' = length rest"
    by blast
  have "step_pool cpr cdr recovery (ci, cp, l) (mt # rest) g = Inr ((ci', cp', l'), mt' # mts', g'')"
    using s p by simp
  then show ?case using q o by simp
qed

lemma pay_principal_tranche_le:
  "\<forall>t\<in>set xs. 0 \<le> balance t \<Longrightarrow> 0 \<le> a \<Longrightarrow> list_all2 tranche_le (fst (pay_principal a xs)) xs"
proof (induction xs arbitrary: a)
  case Nil then show ?case by simp
next
  case (Cons t rest)
  define pay where "pay = min (balance t) a"
  have h: "0 \<le> pay" "pay \<le> balance t" "0 \<le> a - pay" unfolding pay_def using Cons.prems by simp_all
  have t: "tranche_le (t\<lparr>balance := balance t - pay\<rparr>) t" using h by (simp add: tranche_le_def)
  have ih: "list_all2 tranche_le (fst (pay_principal (a - pay) rest)) rest"
    using Cons.IH [of "a - pay"] Cons.prems(1) h(3) by simp
  have eq: "fst (pay_principal a (t # rest)) =
      t\<lparr>balance := balance t - pay\<rparr> # fst (pay_principal (a - pay) rest)"
    by (simp add: Let_def split_beta pay_def)
  show ?case unfolding eq using t ih by simp
qed

lemma sum_list_zip_add:
  "length xs = length ys \<Longrightarrow>
     sum_list (map (\<lambda>(x, y). x + y) (zip xs ys)) = sum_list xs + (sum_list ys :: real)"
  by (induction xs ys rule: list_induct2) simp_all

lemma list_all2_tranche_le_nonneg:
  "list_all2 tranche_le xs ys \<Longrightarrow> \<forall>t\<in>set xs. 0 \<le> balance t"
  by (induction rule: list_all2_induct) (simp_all add: tranche_le_def)

lemma tranche_le_ok: "tranche_le t' t \<Longrightarrow> tranche_ok t \<Longrightarrow> tranche_ok t'"
  by (simp add: tranche_le_def tranche_ok_def)

lemma list_all2_tranche_le_ok:
  assumes "list_all2 tranche_le xs ys" and "\<forall>t\<in>set ys. tranche_ok t"
  shows "\<forall>t\<in>set xs. tranche_ok t"
proof
  fix t assume "t \<in> set xs"
  then obtain i where i: "i < length xs" "xs ! i = t" by (auto simp: in_set_conv_nth)
  have l: "length xs = length ys" using assms(1) by (rule list_all2_lengthD)
  have "tranche_le (xs ! i) (ys ! i)" using assms(1) i(1) by (rule list_all2_nthD)
  moreover have "tranche_ok (ys ! i)" using assms(2) i(1) l by simp
  ultimately show "tranche_ok t" using i(2) tranche_le_ok by blast
qed

lemma tranche_le_trans: "tranche_le a b \<Longrightarrow> tranche_le b c \<Longrightarrow> tranche_le a c"
  by (simp add: tranche_le_def)

lemma waterfall_fields:
  "after_losses (waterfall ci cp l trs) = allocate_losses l trs"
  "interest_paid (waterfall ci cp l trs) = fst (pay_interest ci (allocate_losses l trs))"
  "interest_left (waterfall ci cp l trs) = snd (pay_interest ci (allocate_losses l trs))"
  "principal_pool (waterfall ci cp l trs) = cp + snd (pay_interest ci (allocate_losses l trs))"
  "after_month (waterfall ci cp l trs) =
     fst (pay_principal (cp + snd (pay_interest ci (allocate_losses l trs))) (allocate_losses l trs))"
  "principal_paid (waterfall ci cp l trs) =
     fst (snd (pay_principal (cp + snd (pay_interest ci (allocate_losses l trs))) (allocate_losses l trs)))"
  by (simp_all add: waterfall_def Let_def split_beta)

lemma waterfall_ok:
  assumes t: "\<forall>t\<in>set trs. tranche_ok t" and ci: "0 \<le> ci" and cp: "0 \<le> cp" and l: "0 \<le> l"
    and w_def: "w = waterfall ci cp l trs"
  shows "list_all2 tranche_le (after_losses w) trs"
    and "list_all2 tranche_le (after_month w) (after_losses w)"
    and "\<forall>x\<in>set (interest_paid w). 0 \<le> x"
    and "\<forall>x\<in>set (principal_paid w). 0 \<le> x"
    and "sum_list (interest_paid w) + sum_list (principal_paid w) \<le> ci + cp"
    and "length (interest_paid w) = length trs"
    and "length (principal_paid w) = length trs"
proof -
  let ?trs1 = "allocate_losses l trs"
  let ?pool = "cp + snd (pay_interest ci ?trs1)"
  have b: "\<forall>t\<in>set trs. 0 \<le> balance t" using t by (simp add: tranche_ok_def)
  show a1: "list_all2 tranche_le (after_losses w) trs"
    unfolding w_def waterfall_fields using b l by (rule allocate_losses_tranche_le)
  have ok1: "\<forall>t\<in>set ?trs1. tranche_ok t"
    using a1 t unfolding w_def waterfall_fields by (rule list_all2_tranche_le_ok)
  then have ok1': "\<forall>t\<in>set ?trs1. 0 \<le> balance t \<and> 0 \<le> coupon t" by (simp add: tranche_ok_def)
  have b1: "\<forall>t\<in>set ?trs1. 0 \<le> balance t" using ok1' by simp
  have pi: "(\<forall>x\<in>set (fst (pay_interest ci ?trs1)). 0 \<le> x) \<and> 0 \<le> snd (pay_interest ci ?trs1)"
    using ok1' ci by (rule pay_interest_nonneg)
  then have pool: "0 \<le> ?pool" using cp by simp
  show "list_all2 tranche_le (after_month w) (after_losses w)"
    unfolding w_def waterfall_fields using b1 pool by (rule pay_principal_tranche_le)
  show "\<forall>x\<in>set (interest_paid w). 0 \<le> x" unfolding w_def waterfall_fields using pi by simp
  have pp: "(\<forall>x\<in>set (fst (snd (pay_principal ?pool ?trs1))). 0 \<le> x) \<and>
     (\<forall>t\<in>set (fst (pay_principal ?pool ?trs1)). 0 \<le> balance t) \<and>
     0 \<le> snd (snd (pay_principal ?pool ?trs1))"
    using b1 pool by (rule pay_principal_nonneg)
  show "\<forall>x\<in>set (principal_paid w). 0 \<le> x" unfolding w_def waterfall_fields using pp by simp
  have e1: "snd (pay_interest ci ?trs1) = ci - sum_list (fst (pay_interest ci ?trs1))"
    by (rule pay_interest_left)
  have e2: "snd (snd (pay_principal ?pool ?trs1)) = ?pool - sum_list (fst (snd (pay_principal ?pool ?trs1)))"
    by (rule pay_principal_left)
  have "0 \<le> snd (snd (pay_principal ?pool ?trs1))" using pp by simp
  then show "sum_list (interest_paid w) + sum_list (principal_paid w) \<le> ci + cp"
    unfolding w_def waterfall_fields using e1 e2 by linarith
  have l1: "length ?trs1 = length trs" by (rule allocate_losses_length)
  show "length (interest_paid w) = length trs"
    unfolding w_def waterfall_fields using pay_interest_length [of ci ?trs1] l1 by simp
  show "length (principal_paid w) = length trs"
    unfolding w_def waterfall_fields using pay_principal_length [of ?pool ?trs1] l1 by simp
qed

lemma list_all2_tranche_le_trans:
  "list_all2 tranche_le xs ys \<Longrightarrow> list_all2 tranche_le ys zs \<Longrightarrow> list_all2 tranche_le xs zs"
  using tranche_le_trans by (rule list_all2_trans)

lemma month_body_ok:
  assumes r: "rates_ok cpr cdr recovery" and lo: "\<forall>m\<in>set (mortgages st). loan_ok m"
    and t: "\<forall>t\<in>set (tranches st). tranche_ok t"
    and mb: "month_body cpr cdr recovery monthly_disc month st = Inr st'"
  shows "list_all2 tranche_le (tranches st') (tranches st) \<and>
         (\<forall>m\<in>set (mortgages st'). loan_ok m) \<and> (\<forall>t\<in>set (tranches st'). tranche_ok t)"
proof -
  from step_pool_ok [OF r lo, of 0 0 0 "gen st"] obtain ci cp l mts' g' where
    sp: "step_pool cpr cdr recovery (0, 0, 0) (mortgages st) (gen st) = Inr ((ci, cp, l), mts', g')"
    and c: "0 \<le> ci" "0 \<le> cp" "0 \<le> l" and lo': "\<forall>m\<in>set mts'. loan_ok m"
    by auto
  define w where "w = waterfall ci cp l (tranches st)"
  note wf = waterfall_ok [OF t c w_def]
  have st': "tranches st' = after_month w" "mortgages st' = mts'"
    using mb sp by (auto simp: month_body_def Let_def w_def split: sum.splits)
  have le: "list_all2 tranche_le (after_month w) (tranches st)"
    using wf(2) wf(1) by (rule list_all2_tranche_le_trans)
  have "\<forall>t\<in>set (after_month w). tranche_ok t"
    using le t by (rule list_all2_tranche_le_ok)
  then show ?thesis using le lo' st' by simp
qed

lemma months_loop_ok:
  assumes r: "rates_ok cpr cdr recovery"
  shows "\<forall>m\<in>set (mortgages st). loan_ok m \<Longrightarrow> \<forall>t\<in>set (tranches st). tranche_ok t \<Longrightarrow>
         months_loop cpr cdr recovery monthly_disc ms st = Inr st' \<Longrightarrow>
         list_all2 tranche_le (tranches st') (tranches st) \<and>
         (\<forall>m\<in>set (mortgages st'). loan_ok m) \<and> (\<forall>t\<in>set (tranches st'). tranche_ok t)"
proof (induction ms arbitrary: st)
  case Nil
  have "\<forall>t\<in>set (tranches st). 0 \<le> balance t" using Nil.prems(2) by (simp add: tranche_ok_def)
  then have "list_all2 tranche_le (tranches st) (tranches st)"
    by (simp add: list_all2_same tranche_le_refl)
  then show ?case using Nil.prems by simp
next
  case (Cons month rest)
  show ?case
  proof (cases "list_ex alive (mortgages st)")
    case False
    have "\<forall>t\<in>set (tranches st). 0 \<le> balance t" using Cons.prems(2) by (simp add: tranche_ok_def)
    then have "list_all2 tranche_le (tranches st) (tranches st)"
      by (simp add: list_all2_same tranche_le_refl)
    then show ?thesis using Cons.prems False by simp
  next
    case True
    then obtain st1 where mb: "month_body cpr cdr recovery monthly_disc month st = Inr st1"
      and ml: "months_loop cpr cdr recovery monthly_disc rest st1 = Inr st'"
      using Cons.prems(3) by (auto split: sum.splits)
    note a = month_body_ok [OF r Cons.prems(1,2) mb]
    have b: "list_all2 tranche_le (tranches st') (tranches st1) \<and>
         (\<forall>m\<in>set (mortgages st'). loan_ok m) \<and> (\<forall>t\<in>set (tranches st'). tranche_ok t)"
      using a ml by (intro Cons.IH) simp_all
    have "list_all2 tranche_le (tranches st') (tranches st)"
      using b a list_all2_tranche_le_trans by blast
    then show ?thesis using b by simp
  qed
qed

text \<open>
  C10. In a month of \<^verbatim>\<open>price_single_path\<close>, for well-formed loans and tranches and
  rates between 0 and 1: with the pool totals that stepping the loans gives, each tranche's
  interest payment and principal payment is non-negative, and the sum over the tranches of
  interest plus principal paid is at most the interest cash plus the principal cash of the
  pool. These conditions hold again after the month (\<open>month_body_ok\<close>), hence in every
  month of a path that starts with them (\<open>months_loop_ok\<close>).
\<close>

theorem month_payments_bounded:
  assumes "rates_ok cpr cdr recovery" and "\<forall>m\<in>set mts. loan_ok m"
    and "\<forall>t\<in>set trs. tranche_ok t"
    and "step_pool cpr cdr recovery (0, 0, 0) mts g = Inr ((cash_int, cash_prin, losses), mts', g')"
    and "w = waterfall cash_int cash_prin losses trs"
  shows "length (interest_paid w) = length trs \<and> length (principal_paid w) = length trs \<and>
         (\<forall>x\<in>set (interest_paid w). 0 \<le> x) \<and> (\<forall>x\<in>set (principal_paid w). 0 \<le> x) \<and>
         sum_list (map (\<lambda>(ip, pp). ip + pp) (zip (interest_paid w) (principal_paid w)))
           \<le> cash_int + cash_prin"
proof -
  from step_pool_ok [OF assms(1,2), of 0 0 0 g] assms(4)
  have c: "0 \<le> cash_int" "0 \<le> cash_prin" "0 \<le> losses" by auto
  note wf = waterfall_ok [OF assms(3) c assms(5)]
  have "sum_list (map (\<lambda>(ip, pp). ip + pp) (zip (interest_paid w) (principal_paid w))) =
        sum_list (interest_paid w) + sum_list (principal_paid w)"
    using wf(6,7) by (intro sum_list_zip_add) simp
  then show ?thesis using wf(3,4,5,6,7) by simp
qed

theorem month_payments_bounded_witness:
  "step_pool 0 0 (1 / 4) (0, 0, 0)
     [\<lparr>Mortgage.balance = 1000, rate = 12 / 100, term_months = 12, remaining = 12, payment = 110,
        alive = True\<rparr>] (\<lambda>n. 1 / 2) =
     Inr ((10, 100, 0),
          [\<lparr>Mortgage.balance = 900, rate = 12 / 100, term_months = 12, remaining = 11,
             payment = 110, alive = True\<rparr>], (\<lambda>n. 1 / 2)) \<and>
   interest_paid (waterfall 10 100 0 [\<lparr>name = ''Senior'', balance = 600, coupon = 1 / 10\<rparr>,
                                      \<lparr>name = ''Equity'', balance = 400, coupon = 0\<rparr>]) = [5, 0] \<and>
   principal_paid (waterfall 10 100 0 [\<lparr>name = ''Senior'', balance = 600, coupon = 1 / 10\<rparr>,
                                       \<lparr>name = ''Equity'', balance = 400, coupon = 0\<rparr>]) = [105, 0] \<and>
   sum_list (map (\<lambda>(ip, pp). ip + pp) (zip [5, 0] [105, 0])) \<le> (10 :: real) + 100"
proof -
  have r: "rates_ok 0 0 (1 / 4)" by (simp add: rates_ok_def)
  have lo: "\<forall>m\<in>set [\<lparr>Mortgage.balance = 1000, rate = 12 / 100, term_months = 12, remaining = 12,
      payment = 110, alive = True\<rparr>]. loan_ok m"
    by (simp add: loan_ok_def)
  have t: "\<forall>t\<in>set [\<lparr>name = ''Senior'', balance = 600, coupon = 1 / 10\<rparr>,
                     \<lparr>name = ''Equity'', balance = 400, coupon = 0\<rparr>]. tranche_ok t"
    by (simp add: tranche_ok_def)
  have sp: "step_pool 0 0 (1 / 4) (0, 0, 0)
     [\<lparr>Mortgage.balance = 1000, rate = 12 / 100, term_months = 12, remaining = 12, payment = 110,
        alive = True\<rparr>] (\<lambda>n. 1 / 2) =
     Inr ((10, 100, 0),
          [\<lparr>Mortgage.balance = 900, rate = 12 / 100, term_months = 12, remaining = 11,
             payment = 110, alive = True\<rparr>], (\<lambda>n. 1 / 2))"
    by (simp add: step_def monthly_equiv_def random_def EPS_def Let_def)
  have ip: "interest_paid (waterfall 10 100 0 [\<lparr>name = ''Senior'', balance = 600, coupon = 1 / 10\<rparr>,
                                      \<lparr>name = ''Equity'', balance = 400, coupon = 0\<rparr>]) = [5, 0]"
    by (simp add: waterfall_def allocate_losses_def EPS_def Let_def)
  have pp: "principal_paid (waterfall 10 100 0 [\<lparr>name = ''Senior'', balance = 600, coupon = 1 / 10\<rparr>,
                                       \<lparr>name = ''Equity'', balance = 400, coupon = 0\<rparr>]) = [105, 0]"
    by (simp add: waterfall_def allocate_losses_def EPS_def Let_def)
  from month_payments_bounded [OF r lo t sp refl] sp ip pp show ?thesis by simp
qed

text \<open>
  C4. In a month of \<^verbatim>\<open>price_single_path\<close>, for well-formed loans and tranches and
  rates between 0 and 1: every tranche's balance after the loss allocation is at most its
  balance before the month, its balance after the principal allocation is at most its
  balance after the loss allocation (the interest allocation writes no balance), and so
  its balance after the month is at most its balance before. The loans and tranches the
  month leaves are well formed again, so the same holds in the month after.
\<close>

theorem month_balances_non_increasing:
  assumes "rates_ok cpr cdr recovery" and "\<forall>m\<in>set (mortgages st). loan_ok m"
    and "\<forall>t\<in>set (tranches st). tranche_ok t"
    and "step_pool cpr cdr recovery (0, 0, 0) (mortgages st) (gen st) =
           Inr ((cash_int, cash_prin, losses), mts', g')"
    and "w = waterfall cash_int cash_prin losses (tranches st)"
    and "month_body cpr cdr recovery monthly_disc month st = Inr st'"
  shows "tranches st' = after_month w \<and>
         length (after_losses w) = length (tranches st) \<and>
         length (after_month w) = length (tranches st) \<and>
         (\<forall>i<length (tranches st).
            balance (after_losses w ! i) \<le> balance (tranches st ! i) \<and>
            balance (after_month w ! i) \<le> balance (after_losses w ! i) \<and>
            balance (tranches st' ! i) \<le> balance (tranches st ! i)) \<and>
         (\<forall>m\<in>set (mortgages st'). loan_ok m) \<and> (\<forall>t\<in>set (tranches st'). tranche_ok t)"
proof -
  from step_pool_ok [OF assms(1,2), of 0 0 0 "gen st"] assms(4)
  have c: "0 \<le> cash_int" "0 \<le> cash_prin" "0 \<le> losses" and lo: "\<forall>m\<in>set mts'. loan_ok m"
    by auto
  note wf = waterfall_ok [OF assms(3) c assms(5)]
  have st': "tranches st' = after_month w" "mortgages st' = mts'"
    using assms(4,5,6) by (auto simp: month_body_def Let_def split: sum.splits)
  have l1: "length (after_losses w) = length (tranches st)" using wf(1) by (rule list_all2_lengthD)
  have l2: "length (after_month w) = length (after_losses w)" using wf(2) by (rule list_all2_lengthD)
  have ok1: "\<forall>t\<in>set (after_losses w). tranche_ok t"
    using wf(1) assms(3) by (rule list_all2_tranche_le_ok)
  have ok2: "\<forall>t\<in>set (after_month w). tranche_ok t"
    using wf(2) ok1 by (rule list_all2_tranche_le_ok)
  have p: "balance (after_losses w ! i) \<le> balance (tranches st ! i) \<and>
           balance (after_month w ! i) \<le> balance (after_losses w ! i) \<and>
           balance (tranches st' ! i) \<le> balance (tranches st ! i)"
    if i: "i < length (tranches st)" for i
  proof -
    have i1: "i < length (after_losses w)" and i2: "i < length (after_month w)"
      using i l1 l2 by simp_all
    have "tranche_le (after_losses w ! i) (tranches st ! i)"
      using wf(1) i1 by (rule list_all2_nthD)
    moreover have "tranche_le (after_month w ! i) (after_losses w ! i)"
      using wf(2) i2 by (rule list_all2_nthD)
    ultimately show ?thesis unfolding st' by (simp add: tranche_le_def)
  qed
  show ?thesis using st' l1 l2 p lo ok2 by simp
qed

theorem month_balances_non_increasing_witness:
  "\<exists>st'. month_body 0 1 (1 / 4) 0 1
            \<lparr>tranches = [\<lparr>name = ''Senior'', balance = 600, coupon = 1 / 10\<rparr>,
                          \<lparr>name = ''Equity'', balance = 400, coupon = 0\<rparr>],
             mortgages = [\<lparr>Mortgage.balance = 1000, rate = 12 / 100, term_months = 12,
                            remaining = 12, payment = 110, alive = True\<rparr>],
             pv = [''Senior'' \<mapsto> 0, ''Equity'' \<mapsto> 0], gen = (\<lambda>n. 1 / 2)\<rparr> = Inr st' \<and>
          tranches st' = [\<lparr>name = ''Senior'', balance = 0, coupon = 1 / 10\<rparr>,
                          \<lparr>name = ''Equity'', balance = 0, coupon = 0\<rparr>] \<and>
          (\<forall>i<2. balance (tranches st' ! i) \<le>
                   balance ([\<lparr>name = ''Senior'', balance = 600, coupon = 1 / 10\<rparr>,
                             \<lparr>name = ''Equity'', balance = 400, coupon = 0\<rparr>] ! i))"
proof -
  define ts where "ts = [\<lparr>name = ''Senior'', balance = 600, coupon = 1 / 10\<rparr>,
                         \<lparr>name = ''Equity'', balance = 400, coupon = 0\<rparr>]"
  define st where "st = \<lparr>tranches = ts,
             mortgages = [\<lparr>Mortgage.balance = 1000, rate = 12 / 100, term_months = 12,
                            remaining = 12, payment = 110, alive = True\<rparr>],
             pv = [''Senior'' \<mapsto> (0::real), ''Equity'' \<mapsto> 0], gen = (\<lambda>n. 1 / 2 :: real)\<rparr>"
  have r: "rates_ok 0 1 (1 / 4)" by (simp add: rates_ok_def)
  have lo: "\<forall>m\<in>set (mortgages st). loan_ok m" by (simp add: st_def loan_ok_def)
  have t: "\<forall>t\<in>set (tranches st). tranche_ok t" by (simp add: st_def ts_def tranche_ok_def)
  have sp: "step_pool 0 1 (1 / 4) (0, 0, 0) (mortgages st) (gen st) =
     Inr ((0, 250, 750),
          [\<lparr>Mortgage.balance = 0, rate = 12 / 100, term_months = 12, remaining = 12,
             payment = 110, alive = False\<rparr>], (\<lambda>n. 1 / 2))"
    by (simp add: st_def step_def monthly_equiv_def random_def EPS_def Let_def)
  have w: "waterfall 0 250 750 ts =
     \<lparr>after_losses = [\<lparr>name = ''Senior'', balance = 250, coupon = 1 / 10\<rparr>,
                      \<lparr>name = ''Equity'', balance = 0, coupon = 0\<rparr>],
      interest_paid = [0, 0], interest_left = 0, principal_pool = 250,
      after_month = [\<lparr>name = ''Senior'', balance = 0, coupon = 1 / 10\<rparr>,
                     \<lparr>name = ''Equity'', balance = 0, coupon = 0\<rparr>],
      principal_paid = [250, 0]\<rparr>"
    by (simp add: ts_def waterfall_def allocate_losses_def EPS_def Let_def)
  have ts: "tranches st = ts" by (simp add: st_def)
  have "\<exists>st'. month_body 0 1 (1 / 4) 0 1 st = Inr st'"
    unfolding month_body_def sp
    by (simp add: w float_pow_int_def not_float_overflows_small st_def Let_def)
  then obtain st' where mb: "month_body 0 1 (1 / 4) 0 1 st = Inr st'" by blast
  note th = month_balances_non_increasing [OF r lo t sp refl mb]
  have "tranches st' = after_month (waterfall 0 250 750 (tranches st))"
    using th by (rule conjunct1)
  moreover have "\<forall>i<length (tranches st). balance (tranches st' ! i) \<le> balance (tranches st ! i)"
    using th by blast
  ultimately have "tranches st' = [\<lparr>name = ''Senior'', balance = 0, coupon = 1 / 10\<rparr>,
                          \<lparr>name = ''Equity'', balance = 0, coupon = 0\<rparr>]"
    and "\<forall>i<2. balance (tranches st' ! i) \<le> balance (ts ! i)"
    unfolding ts w by (simp_all add: ts_def)
  then show ?thesis using mb unfolding st_def ts_def by blast
qed

end
